theory Spec2Isabelle
  imports Main "HOL-Library.AList" "HOL-Library.Multiset"
begin

section \<open>Configuration (stack.py, lines 39-62)\<close>

text \<open>
  \<^verbatim>\<open>str2bool(val)\<close> is \<^verbatim>\<open>str(val).lower() in ("yes", "true", "t", "1")\<close>.
  Strings are byte strings here, so \<open>lower\<close> is the ASCII part of \<^verbatim>\<open>str.lower\<close>.
\<close>

definition lower_char :: "char \<Rightarrow> char" where
  "lower_char c =
     (let n = (of_char c :: nat) in if 65 \<le> n \<and> n \<le> 90 then char_of (n + 32) else c)"

definition lower :: "string \<Rightarrow> string" where
  "lower s = map lower_char s"

definition str2bool :: "string \<Rightarrow> bool" where
  "str2bool val = (lower val \<in> set [''yes'', ''true'', ''t'', ''1''])"

text \<open>
  \<^verbatim>\<open>str2bool(os.getenv(NAME, False))\<close>: an unset variable yields the default \<^verbatim>\<open>False\<close>,
  whose \<^verbatim>\<open>str\<close> is \<^verbatim>\<open>"False"\<close>.
\<close>

definition getenv_flag :: "string option \<Rightarrow> bool" where
  "getenv_flag v = str2bool (case v of None \<Rightarrow> ''False'' | Some s \<Rightarrow> s)"

text \<open>
  The module-level settings read from the environment. \<open>SCRAPE_INTERVAL\<close> is a duration in
  seconds handed to \<^verbatim>\<open>time.sleep\<close>, which accepts no negative one: the intervals of the
  model are the natural numbers.
\<close>

record config =
  CF_API_URL :: string
  CF_USERNAME :: string
  CF_PASSWORD :: string
  SCRAPE_INTERVAL :: nat
  SKIP_SSL_VALIDATION :: bool
  INCLUDE_INVALID_STACKS :: bool

text \<open>The configuration when neither optional flag is set in the environment.\<close>

definition default_flags :: "config \<Rightarrow> config" where
  "default_flags cfg =
     cfg\<lparr>SKIP_SSL_VALIDATION := getenv_flag None, INCLUDE_INVALID_STACKS := getenv_flag None\<rparr>"

section \<open>HTTP requests and replies\<close>

text \<open>
  What \<^verbatim>\<open>requests.get\<close> and \<^verbatim>\<open>requests.post\<close> are called with. The field \<open>verify\<close> is the
  keyword argument of the same name: \<^verbatim>\<open>True\<close> makes the library check the server's TLS
  certificate, \<^verbatim>\<open>False\<close> makes it accept any certificate.
\<close>

datatype http_method = GET | POST

record request =
  meth :: http_method
  url :: string
  headers :: "(string \<times> string) list"
  data :: "(string \<times> string) list"
  verify :: bool

text \<open>
  What comes back: no response at all (connection refused, timeout, TLS failure), or a
  response with a status code and a body. The body is \<open>None\<close> when it does not decode
  as JSON.
\<close>

datatype 'b reply = NoResponse | Response nat "'b option"

text \<open>
  The exceptions of the program. \<open>RequestException r\<close> carries \<^verbatim>\<open>err.response\<close>: \<open>None\<close>, or
  the status code of the response that caused it. \<open>Exception\<close> is the bare
  \<^verbatim>\<open>raise Exception\<close> of the retry loop.
\<close>

datatype exn = RequestException "nat option" | JSONDecodeError | KeyError string | Exception

text \<open>
  \<^verbatim>\<open>requests.get\<close> and \<^verbatim>\<open>requests.post\<close> return the response (its status code and
  body) or raise a \<^verbatim>\<open>RequestException\<close> that carries no response.
  \<^verbatim>\<open>response.raise_for_status()\<close> raises for the status codes 400 to 599, and
  \<^verbatim>\<open>response.json()\<close> raises when the body does not decode.
\<close>

definition requests_send :: "(request \<Rightarrow> 'b reply) \<Rightarrow> request \<Rightarrow> exn + nat \<times> 'b option" where
  "requests_send server req =
     (case server req of
        NoResponse \<Rightarrow> Inl (RequestException None)
      | Response status_code content \<Rightarrow> Inr (status_code, content))"

definition raise_for_status :: "nat \<times> 'b option \<Rightarrow> exn + unit" where
  "raise_for_status response =
     (if 400 \<le> fst response \<and> fst response < 600
      then Inl (RequestException (Some (fst response))) else Inr ())"

definition json :: "nat \<times> 'b option \<Rightarrow> exn + 'b" where
  "json response = (case snd response of None \<Rightarrow> Inl JSONDecodeError | Some b \<Rightarrow> Inr b)"

section \<open>Process state\<close>

text \<open>
  The observable effects of the refresh thread: the requests it sends and the calls of
  \<^verbatim>\<open>time.sleep\<close>, in the order they happen. Log lines are not modelled.
\<close>

datatype effect = Sent request | Sleep nat

text \<open>
  The module's global variables. Dictionaries are association lists in insertion order,
  as Python's \<^verbatim>\<open>dict\<close> keeps them. \<open>stack_gauge\<close> holds the labelled children of the gauge
  \<^verbatim>\<open>cf_stack_count\<close>: one value per label that was ever set.
\<close>

record process =
  CF_UAA_URL :: string
  CF_AUTH_TOKEN :: string
  valid_stacks :: "string list"
  stack_cache :: "(string \<times> int) list"
  stack_gauge :: "(string \<times> int) list"
  effects :: "effect list"

section \<open>API client and authenticator (lines 105-135)\<close>

definition api_request :: "config \<Rightarrow> string \<Rightarrow> string \<Rightarrow> request" where
  "api_request cfg token u =
     \<lparr>meth = GET, url = u,
      headers = [(''Authorization'', ''Bearer '' @ token)],
      data = [],
      verify = SKIP_SSL_VALIDATION cfg\<rparr>"

definition api_call ::
  "config \<Rightarrow> (request \<Rightarrow> 'b reply) \<Rightarrow> string \<Rightarrow> process \<Rightarrow> (exn + 'b) \<times> process" where
  "api_call cfg server u g =
     (let req = api_request cfg (CF_AUTH_TOKEN g) u;
          g1 = g\<lparr>effects := effects g @ [Sent req]\<rparr>
      in case requests_send server req of
           Inl err \<Rightarrow> (Inl err, g1)
         | Inr response \<Rightarrow>
             (case raise_for_status response of
                Inl err \<Rightarrow> (Inl err, g1)
              | Inr _ \<Rightarrow> (json response, g1)))"

text \<open>
  The token response, with \<open>None\<close> for a missing key. In the request, the name of the
  third header ends in a quote character, as the source writes it.
\<close>

record token_response =
  access_token :: "string option"

definition token_request :: "config \<Rightarrow> string \<Rightarrow> request" where
  "token_request cfg uaa =
     \<lparr>meth = POST, url = uaa @ ''/oauth/token'',
      headers = [(''Accept'', ''application/json''),
                 (''Authorization'', ''Basic Y2Y6''),
                 (''Content-Type'' @ [CHR 0x27], ''application/x-www-form-urlencoded'')],
      data = [(''grant_type'', ''password''), (''client_id'', ''cf''),
              (''username'', CF_USERNAME cfg), (''password'', CF_PASSWORD cfg)],
      verify = SKIP_SSL_VALIDATION cfg\<rparr>"

definition get_token ::
  "config \<Rightarrow> (request \<Rightarrow> token_response reply) \<Rightarrow> process \<Rightarrow> (exn + unit) \<times> process" where
  "get_token cfg server g =
     (let req = token_request cfg (CF_UAA_URL g);
          g1 = g\<lparr>effects := effects g @ [Sent req]\<rparr>
      in case requests_send server req of
           Inl err \<Rightarrow> (Inl err, g1)
         | Inr response \<Rightarrow>
             (case raise_for_status response of
                Inl err \<Rightarrow> (Inl err, g1)
              | Inr _ \<Rightarrow>
                  (case json response of
                     Inl err \<Rightarrow> (Inl err, g1)
                   | Inr tok \<Rightarrow>
                       (case access_token tok of
                          None \<Rightarrow> (Inl (KeyError ''access_token''), g1)
                        | Some t \<Rightarrow> (Inr (), g1\<lparr>CF_AUTH_TOKEN := t\<rparr>)))))"

section \<open>Application pages (the JSON of \<^verbatim>\<open>/v3/apps\<close>)\<close>

text \<open>
  The parts of a page of the applications listing that the program reads. A field is
  \<open>None\<close> when its key is absent from the JSON object; \<open>stack\<close> is also \<open>None\<close> when the
  value is \<^verbatim>\<open>null\<close>. The values are typed as the platform documents them: a stack name
  is a string, a page count is an integer. The key \<^verbatim>\<open>data\<close> is the field \<open>data_of\<close>.
\<close>

record lifecycle_data =
  stack :: "string option"

record lifecycle =
  data_of :: "lifecycle_data option"

record app =
  lifecycle :: "lifecycle option"

record pagination =
  total_pages :: "int option"

record apps_page =
  pagination :: "pagination option"
  resources :: "app list option"

section \<open>Aggregation (lines 189-196)\<close>

text \<open>\<^verbatim>\<open>d.get(k, default)\<close> and \<^verbatim>\<open>d[k] = v\<close> on an insertion-ordered dictionary.\<close>

definition dict_get :: "('k \<times> 'v) list \<Rightarrow> 'k \<Rightarrow> 'v \<Rightarrow> 'v" where
  "dict_get d k dflt = (case map_of d k of None \<Rightarrow> dflt | Some v \<Rightarrow> v)"

definition dict_set :: "('k \<times> 'v) list \<Rightarrow> 'k \<Rightarrow> 'v \<Rightarrow> ('k \<times> 'v) list" where
  "dict_set d k v = AList.update k v d"

text \<open>\<^verbatim>\<open>app.get("lifecycle", {}).get("data", {}).get("stack")\<close>\<close>

definition app_stack :: "app \<Rightarrow> string option" where
  "app_stack a =
     (case lifecycle a of
        None \<Rightarrow> None
      | Some l \<Rightarrow> (case data_of l of None \<Rightarrow> None | Some d \<Rightarrow> stack d))"

text \<open>
  The body of the inner loop. \<^verbatim>\<open>if stack:\<close> is false for \<^verbatim>\<open>None\<close> and for the empty
  string.
\<close>

definition count_app ::
  "config \<Rightarrow> string list \<Rightarrow> (string \<times> int) list \<Rightarrow> app \<Rightarrow> (string \<times> int) list" where
  "count_app cfg valid stack_counts a =
     (case app_stack a of
        None \<Rightarrow> stack_counts
      | Some s \<Rightarrow>
          if s \<noteq> [] then
            if INCLUDE_INVALID_STACKS cfg \<or> s \<in> set valid
            then dict_set stack_counts s (dict_get stack_counts s 0 + 1)
            else stack_counts
          else stack_counts)"

text \<open>\<^verbatim>\<open>response.get("resources", [])\<close>\<close>

definition page_apps :: "apps_page \<Rightarrow> app list" where
  "page_apps response = (case resources response of None \<Rightarrow> [] | Some apps \<Rightarrow> apps)"

definition count_page ::
  "config \<Rightarrow> string list \<Rightarrow> (string \<times> int) list \<Rightarrow> apps_page \<Rightarrow> (string \<times> int) list" where
  "count_page cfg valid stack_counts response =
     foldl (count_app cfg valid) stack_counts (page_apps response)"

definition aggregate ::
  "config \<Rightarrow> string list \<Rightarrow> apps_page list \<Rightarrow> (string \<times> int) list" where
  "aggregate cfg valid responses = foldl (count_page cfg valid) [] responses"

section \<open>The refresh loop (lines 138-208)\<close>

text \<open>
  What the platform answers during one cycle: \<open>discovery n\<close> answers the request of the
  page-discovery loop made when \<^verbatim>\<open>retries\<close> is \<open>n\<close>, \<open>login n\<close> answers the token request
  made in that same attempt, and \<open>pages\<close> answers the page requests, each of which has its
  own URL.
\<close>

record network =
  discovery :: "nat \<Rightarrow> request \<Rightarrow> apps_page reply"
  login :: "nat \<Rightarrow> request \<Rightarrow> token_response reply"
  pages :: "request \<Rightarrow> apps_page reply"

definition sleep :: "nat \<Rightarrow> process \<Rightarrow> process" where
  "sleep secs g = g\<lparr>effects := effects g @ [Sleep secs]\<rparr>"

definition apps_endpoint :: "config \<Rightarrow> string" where
  "apps_endpoint cfg = CF_API_URL cfg @ ''/v3/apps''"

text \<open>
  The loop \<^verbatim>\<open>while apps_count == 0\<close> (lines 147-174). A decoded page is a JSON object and
  never equals \<^verbatim>\<open>0\<close>, so the loop is left as soon as \<^verbatim>\<open>api_call\<close> returns. An exception of
  \<^verbatim>\<open>get_token\<close> is raised inside the handler and leaves the loop.
\<close>

function page_discovery ::
  "config \<Rightarrow> network \<Rightarrow> nat \<Rightarrow> process \<Rightarrow> (exn + apps_page) \<times> process" where
  "page_discovery cfg net retries g =
     (if retries \<ge> 5 then (Inl Exception, g)
      else
        case api_call cfg (discovery net retries) (apps_endpoint cfg) g of
          (Inr apps_count, g1) \<Rightarrow> (Inr apps_count, g1)
        | (Inl err, g1) \<Rightarrow>
            (case err of
               RequestException None \<Rightarrow>
                 page_discovery cfg net (retries + 1) (sleep 5 g1)
             | RequestException (Some status_code) \<Rightarrow>
                 if status_code = 403 \<or> status_code = 401 then
                   (case get_token cfg (login net retries) g1 of
                      (Inl err2, g2) \<Rightarrow> (Inl err2, g2)
                    | (Inr _, g2) \<Rightarrow> page_discovery cfg net (retries + 1) (sleep 5 g2))
                 else page_discovery cfg net (retries + 1) (sleep 5 g1)
             | _ \<Rightarrow> page_discovery cfg net (retries + 1) (sleep 5 g1)))"
  by pat_completeness auto
termination
  by (relation "measure (\<lambda>(cfg, net, retries, g). 5 - retries)") auto

declare page_discovery.simps [simp del]

text \<open>\<^verbatim>\<open>str\<close> of an integer, for the page number in the URL.\<close>

fun str_nat :: "nat \<Rightarrow> string" where
  "str_nat n =
     (if n < 10 then [char_of (48 + n)] else str_nat (n div 10) @ [char_of (48 + n mod 10)])"

definition str_int :: "int \<Rightarrow> string" where
  "str_int i = (if i < 0 then ''-'' @ str_nat (nat (- i)) else str_nat (nat i))"

definition page_url :: "config \<Rightarrow> int \<Rightarrow> string" where
  "page_url cfg page = apps_endpoint cfg @ ''?page='' @ str_int page @ ''&per_page=50''"

text \<open>
  \<^verbatim>\<open>list(exec.map(api_call, all_urls))\<close>: the calls run on the pool, the results come
  back in the order of the URLs, and the first exception in that order is raised. The
  model records a request for every URL; a pool that has seen a failure may drop calls it
  has not started yet, and no statement below depends on the requests of this step.
\<close>

fun fetch_all ::
  "config \<Rightarrow> (request \<Rightarrow> 'b reply) \<Rightarrow> string list \<Rightarrow> process \<Rightarrow> (exn + 'b list) \<times> process" where
  "fetch_all cfg server [] g = (Inr [], g)"
| "fetch_all cfg server (u # us) g =
     (case api_call cfg server u g of
        (r, g1) \<Rightarrow>
          (case fetch_all cfg server us g1 of
             (rs, g2) \<Rightarrow>
               (case r of
                  Inl err \<Rightarrow> (Inl err, g2)
                | Inr body \<Rightarrow>
                    (case rs of Inl err \<Rightarrow> (Inl err, g2) | Inr bodies \<Rightarrow> (Inr (body # bodies), g2)))))"

text \<open>
  The body of the \<^verbatim>\<open>try\<close> (lines 142-198) up to the publication: the exception that
  leaves it, or the freshly built \<^verbatim>\<open>stack_counts\<close>.
\<close>

definition crawl ::
  "config \<Rightarrow> network \<Rightarrow> process \<Rightarrow> (exn + (string \<times> int) list) \<times> process" where
  "crawl cfg net g =
     (case page_discovery cfg net 0 g of
        (Inl err, g1) \<Rightarrow> (Inl err, g1)
      | (Inr apps_count, g1) \<Rightarrow>
          (case pagination apps_count of
             None \<Rightarrow> (Inl (KeyError ''pagination''), g1)
           | Some p \<Rightarrow>
               (case total_pages p of
                  None \<Rightarrow> (Inl (KeyError ''total_pages''), g1)
                | Some n \<Rightarrow>
                    (case fetch_all cfg (pages net) (map (page_url cfg) [1..n]) g1 of
                       (Inl err, g2) \<Rightarrow> (Inl err, g2)
                     | (Inr responses, g2) \<Rightarrow>
                         (Inr (aggregate cfg (valid_stacks g2) responses), g2)))))"

text \<open>
  The publication (lines 199-200): under the lock, the cache is replaced by the new
  dictionary as a whole.
\<close>

definition publish :: "(string \<times> int) list \<Rightarrow> process \<Rightarrow> process" where
  "publish stack_counts g = g\<lparr>stack_cache := stack_counts\<rparr>"

text \<open>
  One iteration of \<^verbatim>\<open>while True\<close>: the handler of line 202 catches every exception of the
  body, and both ways end with \<^verbatim>\<open>time.sleep(SCRAPE_INTERVAL)\<close>.
\<close>

definition generate_stack_metrics :: "config \<Rightarrow> network \<Rightarrow> process \<Rightarrow> process" where
  "generate_stack_metrics cfg net g =
     (case crawl cfg net g of
        (Inl err, g1) \<Rightarrow> sleep (SCRAPE_INTERVAL cfg) g1
      | (Inr stack_counts, g1) \<Rightarrow> sleep (SCRAPE_INTERVAL cfg) (publish stack_counts g1))"

section \<open>The metrics endpoint (lines 210-220)\<close>

record 'o response =
  status :: nat
  mimetype :: string
  body :: 'o

text \<open>\<^verbatim>\<open>stack_gauge.labels(stack=stack).set(count)\<close> for every item of the copied cache.\<close>

definition set_gauges :: "(string \<times> int) list \<Rightarrow> (string \<times> int) list \<Rightarrow> (string \<times> int) list" where
  "set_gauges local_cache gauge = foldl (\<lambda>r (stack, count). dict_set r stack count) gauge local_cache"

text \<open>
  The handler. \<open>generate_latest\<close> is the exposition encoder of the metrics library: any
  function of the gauge's children.
\<close>

definition metrics ::
  "((string \<times> int) list \<Rightarrow> 'o) \<Rightarrow> process \<Rightarrow> 'o response \<times> process" where
  "metrics generate_latest g =
     (let local_cache = stack_cache g;
          g1 = g\<lparr>stack_gauge := set_gauges local_cache (stack_gauge g)\<rparr>
      in (\<lparr>status = 200, mimetype = ''text/plain'', body = generate_latest (stack_gauge g1)\<rparr>, g1))"

text \<open>
  A run of the process after start-up: refresh cycles, each against some behaviour of the
  network, interleaved with scrapes of the endpoint.
\<close>

datatype event = Cycle network | Scrape

fun step ::
  "config \<Rightarrow> ((string \<times> int) list \<Rightarrow> 'o) \<Rightarrow> process \<Rightarrow> event \<Rightarrow> process" where
  "step cfg generate_latest g (Cycle net) = generate_stack_metrics cfg net g"
| "step cfg generate_latest g Scrape = snd (metrics generate_latest g)"

definition run ::
  "config \<Rightarrow> ((string \<times> int) list \<Rightarrow> 'o) \<Rightarrow> event list \<Rightarrow> process \<Rightarrow> process" where
  "run cfg generate_latest events g = foldl (step cfg generate_latest) g events"

text \<open>
  The globals when the refresh thread and the server are started (lines 231-232): the
  start-up has set the endpoint, the token and the valid stacks; the cache is the empty
  dictionary of line 68 and the gauge has no children yet.
\<close>

definition started :: "string \<Rightarrow> string \<Rightarrow> string list \<Rightarrow> process" where
  "started uaa token valid =
     \<lparr>CF_UAA_URL = uaa, CF_AUTH_TOKEN = token, valid_stacks = valid,
      stack_cache = [], stack_gauge = [], effects = []\<rparr>"

section \<open>Concrete inputs\<close>

text \<open>
  A configuration with both optional flags off, application records that carry a stack,
  and the start of the process with two valid stacks.
\<close>

definition example_config :: config where
  "example_config =
     \<lparr>CF_API_URL = ''https://api.example.com'', CF_USERNAME = ''admin'',
      CF_PASSWORD = ''secret'', SCRAPE_INTERVAL = 300,
      SKIP_SSL_VALIDATION = False, INCLUDE_INVALID_STACKS = False\<rparr>"

definition app_on :: "string \<Rightarrow> app" where
  "app_on s = \<lparr>lifecycle = Some \<lparr>data_of = Some \<lparr>stack = Some s\<rparr>\<rparr>\<rparr>"

definition page_of :: "string list \<Rightarrow> apps_page" where
  "page_of stacks =
     \<lparr>pagination = Some \<lparr>total_pages = Some 2\<rparr>, resources = Some (map app_on stacks)\<rparr>"

definition example_process :: process where
  "example_process =
     started ''https://uaa.example.com'' ''token'' [''cflinuxfs4'', ''windows2016'']"

text \<open>A platform that cannot be reached.\<close>

definition unreachable :: network where
  "unreachable =
     \<lparr>discovery = (\<lambda>n r. NoResponse), login = (\<lambda>n r. NoResponse), pages = (\<lambda>r. NoResponse)\<rparr>"

text \<open>The platform of the two-page scenario.\<close>

definition scenario :: network where
  "scenario =
     \<lparr>discovery = (\<lambda>n r. Response 200 (Some (page_of []))),
      login = (\<lambda>n r. NoResponse),
      pages = (\<lambda>r.
        if url r = ''https://api.example.com/v3/apps?page=1&per_page=50''
        then Response 200 (Some (page_of [''cflinuxfs4'', ''cflinuxfs4'', ''bogus-stack'']))
        else if url r = ''https://api.example.com/v3/apps?page=2&per_page=50''
        then Response 200 (Some (page_of [''windows2016'', ''cflinuxfs4'']))
        else Response 404 None)\<rparr>"




text \<open>
  A platform whose tokens keep expiring: every discovery request is answered with 401,
  the first two logins succeed and every later one is refused.
\<close>

definition expiring :: network where
  "expiring =
     \<lparr>discovery = (\<lambda>n r. Response 401 None),
      login = (\<lambda>n r. if n < 2 then Response 200 (Some \<lparr>access_token = Some ''fresh''\<rparr>)
                      else Response 401 None),
      pages = (\<lambda>r. NoResponse)\<rparr>"

text \<open>
  A well-formed aggregate: every key is a non-empty string and every count is at least
  zero.
\<close>

definition well_formed :: "(string \<times> int) list \<Rightarrow> bool" where
  "well_formed d = list_all (\<lambda>(k, v). k \<noteq> [] \<and> 0 \<le> v) d"


text \<open>
  A process whose gauge still has a child for a stack that the cache no longer holds.
\<close>

definition stale_process :: process where
  "stale_process =
     (publish [(''cflinuxfs4'', 3)] example_process)
       \<lparr>stack_gauge := [(''windows2016'', 1), (''cflinuxfs4'', 2)]\<rparr>"

section \<open>The state a call leaves behind\<close>

lemma api_call_state:
  "snd (api_call cfg server u g)
     = g\<lparr>effects := effects g @ [Sent (api_request cfg (CF_AUTH_TOKEN g) u)]\<rparr>"
  by (simp add: api_call_def Let_def split: sum.splits)

lemma api_call_shared:
  "valid_stacks (snd (api_call cfg server u g)) = valid_stacks g"
  "stack_cache (snd (api_call cfg server u g)) = stack_cache g"
  "stack_gauge (snd (api_call cfg server u g)) = stack_gauge g"
  "CF_UAA_URL (snd (api_call cfg server u g)) = CF_UAA_URL g"
  by (simp_all add: api_call_state)

lemma get_token_shared:
  "valid_stacks (snd (get_token cfg server g)) = valid_stacks g"
  "stack_cache (snd (get_token cfg server g)) = stack_cache g"
  "stack_gauge (snd (get_token cfg server g)) = stack_gauge g"
  "CF_UAA_URL (snd (get_token cfg server g)) = CF_UAA_URL g"
  by (simp_all add: get_token_def Let_def split: sum.splits option.splits)

lemma get_token_effects:
  "effects (snd (get_token cfg server g))
     = effects g @ [Sent (token_request cfg (CF_UAA_URL g))]"
  by (simp add: get_token_def Let_def split: sum.splits option.splits)

lemma sleep_shared:
  "valid_stacks (sleep n g) = valid_stacks g"
  "stack_cache (sleep n g) = stack_cache g"
  "stack_gauge (sleep n g) = stack_gauge g"
  "CF_UAA_URL (sleep n g) = CF_UAA_URL g"
  by (simp_all add: sleep_def)

text \<open>One pass of the retry loop, as a case distinction on what the attempt did.\<close>

lemma page_discovery_cases:
  assumes "retries < 5"
  obtains
    (found) body where "fst (api_call cfg (discovery net retries) (apps_endpoint cfg) g) = Inr body"
      "page_discovery cfg net retries g
         = (Inr body, snd (api_call cfg (discovery net retries) (apps_endpoint cfg) g))"
  | (retry) err where "fst (api_call cfg (discovery net retries) (apps_endpoint cfg) g) = Inl err"
      "\<forall>c. err = RequestException (Some c) \<longrightarrow> c \<noteq> 403 \<and> c \<noteq> 401"
      "page_discovery cfg net retries g
         = page_discovery cfg net (retries + 1)
             (sleep 5 (snd (api_call cfg (discovery net retries) (apps_endpoint cfg) g)))"
  | (relogin) status_code where
      "fst (api_call cfg (discovery net retries) (apps_endpoint cfg) g)
         = Inl (RequestException (Some status_code))"
      "status_code = 403 \<or> status_code = 401"
      "\<not> isl (fst (get_token cfg (login net retries)
                 (snd (api_call cfg (discovery net retries) (apps_endpoint cfg) g))))"
      "page_discovery cfg net retries g
         = page_discovery cfg net (retries + 1)
             (sleep 5 (snd (get_token cfg (login net retries)
                (snd (api_call cfg (discovery net retries) (apps_endpoint cfg) g)))))"
  | (denied) status_code err where
      "fst (api_call cfg (discovery net retries) (apps_endpoint cfg) g)
         = Inl (RequestException (Some status_code))"
      "status_code = 403 \<or> status_code = 401"
      "fst (get_token cfg (login net retries)
                 (snd (api_call cfg (discovery net retries) (apps_endpoint cfg) g))) = Inl err"
      "page_discovery cfg net retries g
         = (Inl err, snd (get_token cfg (login net retries)
                (snd (api_call cfg (discovery net retries) (apps_endpoint cfg) g))))"
proof -
  obtain r g1 where a: "api_call cfg (discovery net retries) (apps_endpoint cfg) g = (r, g1)"
    by (cases "api_call cfg (discovery net retries) (apps_endpoint cfg) g")
  obtain t g2 where b: "get_token cfg (login net retries) g1 = (t, g2)"
    by (cases "get_token cfg (login net retries) g1")
  have unfold: "page_discovery cfg net retries g =
     (case r of
        Inr apps_count \<Rightarrow> (Inr apps_count, g1)
      | Inl err \<Rightarrow>
          (case err of
             RequestException None \<Rightarrow> page_discovery cfg net (retries + 1) (sleep 5 g1)
           | RequestException (Some status_code) \<Rightarrow>
               if status_code = 403 \<or> status_code = 401 then
                 (case t of
                    Inl err2 \<Rightarrow> (Inl err2, g2)
                  | Inr _ \<Rightarrow> page_discovery cfg net (retries + 1) (sleep 5 g2))
               else page_discovery cfg net (retries + 1) (sleep 5 g1)
           | _ \<Rightarrow> page_discovery cfg net (retries + 1) (sleep 5 g1)))"
    using assms
    by (subst page_discovery.simps)
       (simp add: a b split: sum.splits exn.splits option.splits)
  show ?thesis
  proof (cases r)
    case (Inr body)
    with unfold a found show ?thesis by simp
  next
    case (Inl err)
    show ?thesis
    proof (cases "\<exists>c. err = RequestException (Some c) \<and> (c = 403 \<or> c = 401)")
      case False
      with Inl unfold have "page_discovery cfg net retries g
          = page_discovery cfg net (retries + 1) (sleep 5 g1)"
        by (auto split: exn.splits option.splits)
      with Inl a retry False show ?thesis by auto
    next
      case True
      then obtain c where c: "err = RequestException (Some c)" "c = 403 \<or> c = 401"
        by blast
      show ?thesis
      proof (cases t)
        case (Inl err2)
        with c \<open>r = Inl err\<close> unfold a b denied show ?thesis by auto
      next
        case (Inr x)
        with c \<open>r = Inl err\<close> unfold a b relogin show ?thesis by auto
      qed
    qed
  qed
qed


lemma page_discovery_exhausted:
  "5 \<le> retries \<Longrightarrow> page_discovery cfg net retries g = (Inl Exception, g)"
  by (subst page_discovery.simps) simp

lemma page_discovery_shared:
  "valid_stacks (snd (page_discovery cfg net retries g)) = valid_stacks g
   \<and> stack_cache (snd (page_discovery cfg net retries g)) = stack_cache g
   \<and> stack_gauge (snd (page_discovery cfg net retries g)) = stack_gauge g
   \<and> CF_UAA_URL (snd (page_discovery cfg net retries g)) = CF_UAA_URL g"
proof (induction "5 - retries" arbitrary: retries g)
  case 0
  then show ?case by (simp add: page_discovery_exhausted)
next
  case (Suc n)
  then have lt: "retries < 5" and n: "n = 5 - (retries + 1)" by auto
  from lt show ?case
  proof (cases rule: page_discovery_cases [of _ cfg net g])
    case (found body)
    then show ?thesis by (simp add: api_call_shared)
  next
    case (retry err)
    with Suc.hyps(1) [OF n] show ?thesis
      by (simp add: api_call_shared sleep_shared)
  next
    case (relogin status_code)
    with Suc.hyps(1) [OF n] show ?thesis
      by (simp add: api_call_shared get_token_shared sleep_shared)
  next
    case (denied status_code err)
    then show ?thesis by (simp add: api_call_shared get_token_shared)
  qed
qed

lemma api_call_effects:
  "effects (snd (api_call cfg server u g))
     = effects g @ [Sent (api_request cfg (CF_AUTH_TOKEN g) u)]"
  by (simp add: api_call_state)

lemma effects_extend:
  "effects g1 = effects g @ es1 \<Longrightarrow> \<exists>es. effects g2 = effects g1 @ es \<Longrightarrow>
   \<exists>es. effects g2 = effects g @ es"
  by auto

lemma page_discovery_effects:
  "\<exists>es. effects (snd (page_discovery cfg net retries g)) = effects g @ es"
proof (induction "5 - retries" arbitrary: retries g)
  case 0
  then show ?case by (simp add: page_discovery_exhausted)
next
  case (Suc n)
  then have lt: "retries < 5" and n: "n = 5 - (retries + 1)" by auto
  let ?g1 = "snd (api_call cfg (discovery net retries) (apps_endpoint cfg) g)"
  let ?g2 = "snd (get_token cfg (login net retries) ?g1)"
  from lt show ?case
  proof (cases rule: page_discovery_cases [of _ cfg net g])
    case (found body)
    then show ?thesis by (simp add: api_call_effects)
  next
    case (retry err)
    have "effects (sleep 5 ?g1) = effects g @ [Sent (api_request cfg (CF_AUTH_TOKEN g) (apps_endpoint cfg)), Sleep 5]"
      by (simp add: sleep_def api_call_effects)
    from effects_extend [OF this Suc.hyps(1) [OF n]] retry show ?thesis by simp
  next
    case (relogin status_code)
    have "effects (sleep 5 ?g2) = effects g @ [Sent (api_request cfg (CF_AUTH_TOKEN g) (apps_endpoint cfg)),
        Sent (token_request cfg (CF_UAA_URL g)), Sleep 5]"
      by (simp add: sleep_def api_call_effects get_token_effects api_call_shared)
    from effects_extend [OF this Suc.hyps(1) [OF n]] relogin show ?thesis by simp
  next
    case (denied status_code err)
    then show ?thesis by (simp add: api_call_effects get_token_effects api_call_shared)
  qed
qed

lemma page_discovery_gives_up:
  assumes "\<forall>n. retries \<le> n \<and> n < 5 \<longrightarrow>
             (\<forall>g'. isl (fst (api_call cfg (discovery net n) (apps_endpoint cfg) g')))"
  shows "isl (fst (page_discovery cfg net retries g))"
  using assms
proof (induction "5 - retries" arbitrary: retries g)
  case 0
  then show ?case by (simp add: page_discovery_exhausted)
next
  case (Suc n)
  then have lt: "retries < 5" and n: "n = 5 - (retries + 1)" by auto
  have fails: "isl (fst (api_call cfg (discovery net retries) (apps_endpoint cfg) g))"
    using Suc.prems lt by simp
  have later: "\<forall>n. retries + 1 \<le> n \<and> n < 5 \<longrightarrow>
             (\<forall>g'. isl (fst (api_call cfg (discovery net n) (apps_endpoint cfg) g')))"
    using Suc.prems by simp
  from lt show ?case
  proof (cases rule: page_discovery_cases [of _ cfg net g])
    case (found body)
    with fails show ?thesis by simp
  next
    case (retry err)
    with Suc.hyps(1) [OF n later] show ?thesis by simp
  next
    case (relogin status_code)
    with Suc.hyps(1) [OF n later] show ?thesis by simp
  next
    case (denied status_code err)
    then show ?thesis by simp
  qed
qed

lemma fetch_all_shared:
  "valid_stacks (snd (fetch_all cfg server us g)) = valid_stacks g
   \<and> stack_cache (snd (fetch_all cfg server us g)) = stack_cache g
   \<and> stack_gauge (snd (fetch_all cfg server us g)) = stack_gauge g
   \<and> CF_UAA_URL (snd (fetch_all cfg server us g)) = CF_UAA_URL g"
proof (induction us arbitrary: g)
  case Nil
  show ?case by simp
next
  case (Cons u us)
  obtain r g1 where a: "api_call cfg server u g = (r, g1)"
    by (cases "api_call cfg server u g")
  obtain rs g2 where b: "fetch_all cfg server us g1 = (rs, g2)"
    by (cases "fetch_all cfg server us g1")
  have g1: "g1 = snd (api_call cfg server u g)" using a by simp
  have "snd (fetch_all cfg server (u # us) g) = g2"
    by (simp add: a b split: sum.splits)
  moreover have "g2 = snd (fetch_all cfg server us g1)" using b by simp
  ultimately show ?case
    using Cons.IH [of g1] by (simp add: g1 api_call_shared)
qed

lemma fetch_all_effects:
  "\<exists>es. effects (snd (fetch_all cfg server us g)) = effects g @ es"
proof (induction us arbitrary: g)
  case Nil
  show ?case by simp
next
  case (Cons u us)
  obtain r g1 where a: "api_call cfg server u g = (r, g1)"
    by (cases "api_call cfg server u g")
  obtain rs g2 where b: "fetch_all cfg server us g1 = (rs, g2)"
    by (cases "fetch_all cfg server us g1")
  have g1: "g1 = snd (api_call cfg server u g)" using a by simp
  have "snd (fetch_all cfg server (u # us) g) = g2"
    by (simp add: a b split: sum.splits)
  moreover have "g2 = snd (fetch_all cfg server us g1)" using b by simp
  ultimately show ?case
    using Cons.IH [of g1] by (auto simp: g1 api_call_effects)
qed

text \<open>The crawl, split at the page discovery.\<close>

lemma crawl_aborted:
  "fst (page_discovery cfg net 0 g) = Inl err \<Longrightarrow>
   crawl cfg net g = (Inl err, snd (page_discovery cfg net 0 g))"
  by (cases "page_discovery cfg net 0 g") (simp add: crawl_def)

lemma crawl_state_cases:
  obtains (aborted) "snd (crawl cfg net g) = snd (page_discovery cfg net 0 g)"
  | (fetched) us where
      "snd (crawl cfg net g) = snd (fetch_all cfg (pages net) us (snd (page_discovery cfg net 0 g)))"
proof -
  obtain r g1 where a: "page_discovery cfg net 0 g = (r, g1)"
    by (cases "page_discovery cfg net 0 g")
  show ?thesis
  proof (cases r)
    case (Inl err)
    with a aborted show ?thesis by (simp add: crawl_def)
  next
    case (Inr apps_count)
    show ?thesis
    proof (cases "pagination apps_count")
      case None
      with Inr a aborted show ?thesis by (simp add: crawl_def)
    next
      case (Some p)
      show ?thesis
      proof (cases "total_pages p")
        case None
        with Some Inr a aborted show ?thesis by (simp add: crawl_def)
      next
        case (Some n)
        have "snd (crawl cfg net g)
            = snd (fetch_all cfg (pages net) (map (page_url cfg) [1..n]) g1)"
          using Some \<open>pagination apps_count = Some p\<close> Inr a
          by (simp add: crawl_def split: prod.splits sum.splits)
        with a fetched show ?thesis by simp
      qed
    qed
  qed
qed

lemma crawl_shared:
  "valid_stacks (snd (crawl cfg net g)) = valid_stacks g
   \<and> stack_cache (snd (crawl cfg net g)) = stack_cache g
   \<and> stack_gauge (snd (crawl cfg net g)) = stack_gauge g
   \<and> CF_UAA_URL (snd (crawl cfg net g)) = CF_UAA_URL g"
proof (cases rule: crawl_state_cases [of cfg net g])
  case aborted
  then show ?thesis by (simp add: page_discovery_shared)
next
  case (fetched us)
  then show ?thesis by (simp add: fetch_all_shared page_discovery_shared)
qed

lemma crawl_effects: "\<exists>es. effects (snd (crawl cfg net g)) = effects g @ es"
proof (cases rule: crawl_state_cases [of cfg net g])
  case aborted
  then show ?thesis by (simp add: page_discovery_effects)
next
  case (fetched us)
  obtain es where "effects (snd (page_discovery cfg net 0 g)) = effects g @ es"
    using page_discovery_effects [of cfg net 0 g] ..
  moreover obtain es' where
    "effects (snd (fetch_all cfg (pages net) us (snd (page_discovery cfg net 0 g))))
       = effects (snd (page_discovery cfg net 0 g)) @ es'"
    using fetch_all_effects [of cfg "pages net" us] ..
  ultimately show ?thesis using fetched by simp
qed

text \<open>An iteration of the refresh loop, by the outcome of its crawl.\<close>

lemma generate_stack_metrics_cache:
  "stack_cache (generate_stack_metrics cfg net g)
     = (case fst (crawl cfg net g) of Inl err \<Rightarrow> stack_cache g | Inr stack_counts \<Rightarrow> stack_counts)"
  using crawl_shared [of cfg net g]
  by (cases "crawl cfg net g")
     (auto simp: generate_stack_metrics_def sleep_def publish_def split: sum.splits)

lemma generate_stack_metrics_shared:
  "valid_stacks (generate_stack_metrics cfg net g) = valid_stacks g
   \<and> stack_gauge (generate_stack_metrics cfg net g) = stack_gauge g"
  using crawl_shared [of cfg net g]
  by (cases "crawl cfg net g")
     (auto simp: generate_stack_metrics_def sleep_def publish_def split: sum.splits)

lemma generate_stack_metrics_effects:
  "\<exists>es. effects (generate_stack_metrics cfg net g)
          = effects g @ es @ [Sleep (SCRAPE_INTERVAL cfg)]"
  using crawl_effects [of cfg net g]
  by (cases "crawl cfg net g")
     (auto simp: generate_stack_metrics_def sleep_def publish_def split: sum.splits)

section \<open>TLS verification of outgoing requests\<close>

lemma getenv_flag_unset: "getenv_flag None = False"
  by code_simp

text \<open>
  Claim C1 says that every request of \<open>api_call\<close> and \<open>get_token\<close> has its certificate
  verified exactly when the skip flag is false. The code passes the skip flag itself as
  \<^verbatim>\<open>verify\<close>: the value of \<open>verify\<close> equals the flag, and with the flag unset in the
  environment (the documented default, "validates SSL") both functions send their request
  with \<open>verify = False\<close>, that is without certificate verification.
\<close>

theorem default_configuration_sends_unverified_requests:
  "verify (api_request cfg token u) = SKIP_SSL_VALIDATION cfg
   \<and> verify (token_request cfg uaa) = SKIP_SSL_VALIDATION cfg
   \<and> effects (snd (api_call (default_flags cfg) server u g))
         = effects g @ [Sent (api_request (default_flags cfg) (CF_AUTH_TOKEN g) u)]
   \<and> verify (api_request (default_flags cfg) (CF_AUTH_TOKEN g) u) = False
   \<and> effects (snd (get_token (default_flags cfg) server' g))
         = effects g @ [Sent (token_request (default_flags cfg) (CF_UAA_URL g))]
   \<and> verify (token_request (default_flags cfg) (CF_UAA_URL g)) = False"
  by (simp add: api_call_effects get_token_effects api_request_def token_request_def
        default_flags_def getenv_flag_unset)

section \<open>The two-page scenario\<close>

text \<open>
  Claim C2: with filtering of invalid stacks enabled and the valid stacks cflinuxfs4 and
  windows2016, two pages whose application records carry the stacks
  cflinuxfs4, cflinuxfs4, bogus-stack and windows2016, cflinuxfs4 aggregate to exactly
  cflinuxfs4: 3, windows2016: 1.
\<close>

theorem scenario_aggregate:
  assumes "\<not> INCLUDE_INVALID_STACKS cfg"
    and "set valid = {''cflinuxfs4'', ''windows2016''}"
    and "map app_stack (page_apps page1)
           = [Some ''cflinuxfs4'', Some ''cflinuxfs4'', Some ''bogus-stack'']"
    and "map app_stack (page_apps page2) = [Some ''windows2016'', Some ''cflinuxfs4'']"
  shows "aggregate cfg valid [page1, page2] = [(''cflinuxfs4'', 3), (''windows2016'', 1)]"
proof -
  from assms(3) obtain a1 a2 a3 where p1: "page_apps page1 = [a1, a2, a3]"
    and s1: "app_stack a1 = Some ''cflinuxfs4''" "app_stack a2 = Some ''cflinuxfs4''"
            "app_stack a3 = Some ''bogus-stack''"
    by (auto simp: map_eq_Cons_conv)
  from assms(4) obtain b1 b2 where p2: "page_apps page2 = [b1, b2]"
    and s2: "app_stack b1 = Some ''windows2016''" "app_stack b2 = Some ''cflinuxfs4''"
    by (auto simp: map_eq_Cons_conv)
  show ?thesis
    using assms(1)
    by (simp add: aggregate_def count_page_def p1 p2 count_app_def s1 s2 assms(2)
          dict_get_def dict_set_def)
qed

lemma app_stack_app_on: "app_stack (app_on s) = Some s"
  by (simp add: app_stack_def app_on_def)

lemma page_apps_page_of: "page_apps (page_of stacks) = map app_on stacks"
  by (simp add: page_apps_def page_of_def)

theorem scenario_aggregate_witness:
  "\<not> INCLUDE_INVALID_STACKS example_config
   \<and> set [''cflinuxfs4'', ''windows2016''] = {''cflinuxfs4'', ''windows2016''}
   \<and> map app_stack (page_apps (page_of [''cflinuxfs4'', ''cflinuxfs4'', ''bogus-stack'']))
        = [Some ''cflinuxfs4'', Some ''cflinuxfs4'', Some ''bogus-stack'']
   \<and> map app_stack (page_apps (page_of [''windows2016'', ''cflinuxfs4'']))
        = [Some ''windows2016'', Some ''cflinuxfs4'']
   \<and> aggregate example_config [''cflinuxfs4'', ''windows2016'']
         [page_of [''cflinuxfs4'', ''cflinuxfs4'', ''bogus-stack''],
          page_of [''windows2016'', ''cflinuxfs4'']]
        = [(''cflinuxfs4'', 3), (''windows2016'', 1)]"
proof -
  have h1: "\<not> INCLUDE_INVALID_STACKS example_config"
    by (simp add: example_config_def)
  have h2: "set [''cflinuxfs4'', ''windows2016''] = {''cflinuxfs4'', ''windows2016''}"
    by simp
  have h3: "map app_stack (page_apps (page_of [''cflinuxfs4'', ''cflinuxfs4'', ''bogus-stack'']))
        = [Some ''cflinuxfs4'', Some ''cflinuxfs4'', Some ''bogus-stack'']"
    by (simp add: page_apps_page_of app_stack_app_on)
  have h4: "map app_stack (page_apps (page_of [''windows2016'', ''cflinuxfs4'']))
        = [Some ''windows2016'', Some ''cflinuxfs4'']"
    by (simp add: page_apps_page_of app_stack_app_on)
  from scenario_aggregate [OF h1 h2 h3 h4] h1 h2 h3 h4 show ?thesis by blast
qed

section \<open>Five failed page discoveries\<close>

text \<open>
  Claim C3: if \<open>api_call\<close> raises in each of the five attempts of the page discovery
  (whatever the kind of failure and whatever the re-logins do), the body of the cycle ends
  in an exception, nothing is published, the cache is what it was before the cycle, and
  the last thing the cycle does is sleep for the whole interval.
\<close>

theorem five_failures_abort_cycle:
  assumes "\<forall>n<5. \<forall>g'. isl (fst (api_call cfg (discovery net n) (apps_endpoint cfg) g'))"
  shows "isl (fst (crawl cfg net g))
       \<and> stack_cache (generate_stack_metrics cfg net g) = stack_cache g
       \<and> (\<exists>es. effects (generate_stack_metrics cfg net g)
                 = effects g @ es @ [Sleep (SCRAPE_INTERVAL cfg)])"
proof -
  have "isl (fst (page_discovery cfg net 0 g))"
    using assms by (intro page_discovery_gives_up) simp
  then obtain err where "fst (page_discovery cfg net 0 g) = Inl err"
    by (cases "fst (page_discovery cfg net 0 g)") auto
  then have c: "fst (crawl cfg net g) = Inl err"
    by (simp add: crawl_aborted)
  then have "stack_cache (generate_stack_metrics cfg net g) = stack_cache g"
    by (simp add: generate_stack_metrics_cache)
  with c generate_stack_metrics_effects [of cfg net g] show ?thesis by simp
qed

lemma unreachable_fails:
  "fst (api_call cfg (discovery unreachable n) u g) = Inl (RequestException None)"
  by (simp add: api_call_def unreachable_def requests_send_def raise_for_status_def Let_def)

theorem five_failures_abort_cycle_witness:
  "isl (fst (crawl example_config unreachable
                 (publish [(''cflinuxfs4'', 3)] example_process)))
   \<and> stack_cache (generate_stack_metrics example_config unreachable
                    (publish [(''cflinuxfs4'', 3)] example_process))
        = [(''cflinuxfs4'', 3)]
   \<and> (\<exists>es. effects (generate_stack_metrics example_config unreachable
                    (publish [(''cflinuxfs4'', 3)] example_process))
        = es @ [Sleep 300])"
proof -
  have h: "\<forall>n<5. \<forall>g'. isl (fst (api_call example_config (discovery unreachable n)
                            (apps_endpoint example_config) g'))"
    by (simp add: unreachable_fails)
  from five_failures_abort_cycle [OF h, of "publish [(''cflinuxfs4'', 3)] example_process"]
  show ?thesis
    by (simp add: publish_def example_process_def started_def example_config_def)
qed

section \<open>A re-login that fails\<close>

text \<open>
  The retry loop when the attempts before the \<open>k\<close>-th fail and are retried, the \<open>k\<close>-th is
  refused with 401 or 403, and the login it triggers raises \<open>e\<close>: the loop ends with \<open>e\<close>
  right after the token request, having slept \<open>k\<close> times and asked \<open>k + 1\<close> times.
\<close>

lemma page_discovery_denied:
  assumes "k < 5" and "n \<le> k"
    and fails: "\<forall>m<k. \<forall>g'. isl (fst (api_call cfg (discovery net m) (apps_endpoint cfg) g'))"
    and relog: "\<forall>m<k. \<forall>g'. \<not> isl (fst (get_token cfg (login net m) g'))"
    and auth: "\<forall>g'. \<exists>c. fst (api_call cfg (discovery net k) (apps_endpoint cfg) g')
                        = Inl (RequestException (Some c)) \<and> (c = 403 \<or> c = 401)"
    and deny: "\<forall>g'. fst (get_token cfg (login net k) g') = Inl e"
  shows "fst (page_discovery cfg net n g) = Inl e
       \<and> (\<exists>es. effects (snd (page_discovery cfg net n g))
                 = effects g @ es @ [Sent (token_request cfg (CF_UAA_URL g))]
              \<and> length [x \<leftarrow> es. x = Sleep 5] = k - n
              \<and> length [x \<leftarrow> es. \<exists>r. x = Sent r \<and> meth r = GET] = k + 1 - n)"
  using \<open>n \<le> k\<close>
proof (induction "k - n" arbitrary: n g)
  case 0
  then have nk: "k = n" by simp
  note auth' = auth [unfolded nk] and deny' = deny [unfolded nk]
  let ?g1 = "snd (api_call cfg (discovery net n) (apps_endpoint cfg) g)"
  from \<open>k < 5\<close> have "n < 5" by (simp add: nk)
  then show ?case
  proof (cases rule: page_discovery_cases [of _ cfg net g])
    case (found body)
    from auth' obtain c where
      "fst (api_call cfg (discovery net n) (apps_endpoint cfg) g) = Inl (RequestException (Some c))"
      by blast
    with found show ?thesis by simp
  next
    case (retry err)
    from auth' obtain c where
      "fst (api_call cfg (discovery net n) (apps_endpoint cfg) g) = Inl (RequestException (Some c))"
      "c = 403 \<or> c = 401"
      by blast
    with retry(1,2) show ?thesis by auto
  next
    case (relogin status_code)
    with deny' show ?thesis by simp
  next
    case (denied status_code err)
    have "err = e" using denied(3) deny' by simp
    moreover have "effects (snd (get_token cfg (login net n) ?g1))
        = effects g @ [Sent (api_request cfg (CF_AUTH_TOKEN g) (apps_endpoint cfg))]
            @ [Sent (token_request cfg (CF_UAA_URL g))]"
      by (simp add: get_token_effects api_call_effects api_call_shared)
    moreover have "length [x \<leftarrow> [Sent (api_request cfg (CF_AUTH_TOKEN g) (apps_endpoint cfg))].
                     x = Sleep 5] = k - n"
      by (simp add: nk)
    moreover have "length [x \<leftarrow> [Sent (api_request cfg (CF_AUTH_TOKEN g) (apps_endpoint cfg))].
                     \<exists>r. x = Sent r \<and> meth r = GET] = k + 1 - n"
      by (simp add: api_request_def nk)
    ultimately show ?thesis using denied(4)
      by (intro conjI exI [of _ "[Sent (api_request cfg (CF_AUTH_TOKEN g) (apps_endpoint cfg))]"])
         simp_all
  qed
next
  case (Suc d)
  then have lt: "n < k" and d: "d = k - (n + 1)" and le: "n + 1 \<le> k" by auto
  from lt \<open>k < 5\<close> have n5: "n < 5" by simp
  let ?a = "Sent (api_request cfg (CF_AUTH_TOKEN g) (apps_endpoint cfg))"
  let ?g1 = "snd (api_call cfg (discovery net n) (apps_endpoint cfg) g)"
  let ?g2 = "snd (get_token cfg (login net n) ?g1)"
  have step: "\<exists>es. effects (snd (page_discovery cfg net (n + 1) h))
                 = effects g @ es @ [Sent (token_request cfg (CF_UAA_URL g))]
              \<and> length [x \<leftarrow> es. x = Sleep 5] = k - n
              \<and> length [x \<leftarrow> es. \<exists>r. x = Sent r \<and> meth r = GET] = k + 1 - n"
    if h: "effects h = effects g @ ?a # ps @ [Sleep 5]" "CF_UAA_URL h = CF_UAA_URL g"
      and ps: "\<forall>x\<in>set ps. \<exists>r. x = Sent r \<and> meth r = POST" for h ps
  proof -
    from Suc.hyps(1) [OF d le, of h] obtain es where
      es: "effects (snd (page_discovery cfg net (n + 1) h))
             = effects h @ es @ [Sent (token_request cfg (CF_UAA_URL h))]"
          "length [x \<leftarrow> es. x = Sleep 5] = k - (n + 1)"
          "length [x \<leftarrow> es. \<exists>r. x = Sent r \<and> meth r = GET] = k + 1 - (n + 1)"
      by blast
    have f1: "[x \<leftarrow> ps. x = Sleep 5] = []"
      using ps by (auto simp: filter_empty_conv)
    have f2: "[x \<leftarrow> ps. \<exists>r. x = Sent r \<and> meth r = GET] = []"
      using ps by (auto simp: filter_empty_conv)
    let ?es = "?a # ps @ [Sleep 5] @ es"
    have "effects (snd (page_discovery cfg net (n + 1) h))
            = effects g @ ?es @ [Sent (token_request cfg (CF_UAA_URL g))]"
      using es(1) h by simp
    moreover have "length [x \<leftarrow> ?es. x = Sleep 5] = k - n"
      using es(2) lt f1 by simp
    moreover have "length [x \<leftarrow> ?es. \<exists>r. x = Sent r \<and> meth r = GET] = k + 1 - n"
      using es(3) lt f2 by (simp add: api_request_def)
    ultimately show ?thesis by blast
  qed
  from n5 show ?case
  proof (cases rule: page_discovery_cases [of _ cfg net g])
    case (found body)
    from fails lt have "isl (fst (api_call cfg (discovery net n) (apps_endpoint cfg) g))"
      by blast
    with found show ?thesis by simp
  next
    case (retry err)
    have "effects (sleep 5 ?g1) = effects g @ ?a # [] @ [Sleep 5]"
      by (simp add: sleep_def api_call_effects)
    moreover have "CF_UAA_URL (sleep 5 ?g1) = CF_UAA_URL g"
      by (simp add: sleep_shared api_call_shared)
    ultimately have "\<exists>es. effects (snd (page_discovery cfg net (n + 1) (sleep 5 ?g1)))
                 = effects g @ es @ [Sent (token_request cfg (CF_UAA_URL g))]
              \<and> length [x \<leftarrow> es. x = Sleep 5] = k - n
              \<and> length [x \<leftarrow> es. \<exists>r. x = Sent r \<and> meth r = GET] = k + 1 - n"
      by (rule step) simp
    moreover have "fst (page_discovery cfg net (n + 1) (sleep 5 ?g1)) = Inl e"
      using Suc.hyps(1) [OF d le] by blast
    ultimately show ?thesis using retry(3) by simp
  next
    case (relogin status_code)
    have "effects (sleep 5 ?g2)
            = effects g @ ?a # [Sent (token_request cfg (CF_UAA_URL g))] @ [Sleep 5]"
      by (simp add: sleep_def api_call_effects get_token_effects api_call_shared)
    moreover have "CF_UAA_URL (sleep 5 ?g2) = CF_UAA_URL g"
      by (simp add: sleep_shared api_call_shared get_token_shared)
    ultimately have "\<exists>es. effects (snd (page_discovery cfg net (n + 1) (sleep 5 ?g2)))
                 = effects g @ es @ [Sent (token_request cfg (CF_UAA_URL g))]
              \<and> length [x \<leftarrow> es. x = Sleep 5] = k - n
              \<and> length [x \<leftarrow> es. \<exists>r. x = Sent r \<and> meth r = GET] = k + 1 - n"
      by (rule step) (simp add: token_request_def)
    moreover have "fst (page_discovery cfg net (n + 1) (sleep 5 ?g2)) = Inl e"
      using Suc.hyps(1) [OF d le] by blast
    ultimately show ?thesis using relogin(4) by simp
  next
    case (denied status_code err)
    from relog lt have "\<not> isl (fst (get_token cfg (login net n) ?g1))"
      by blast
    with denied(3) show ?thesis by simp
  qed
qed

text \<open>
  Claim C10: if an attempt of the page discovery is answered with 401 or 403 and the
  \<open>get_token\<close> it triggers raises, that exception ends the body of the cycle. Only the
  \<open>k\<close> retries made before are consumed (\<open>k\<close> sleeps of five seconds and \<open>k + 1\<close> discovery
  requests); after the refused token request the cycle sleeps for the interval at once, and
  the cache is unchanged.
\<close>

theorem failed_relogin_aborts_cycle:
  assumes "k < 5"
    and "\<forall>m<k. \<forall>g'. isl (fst (api_call cfg (discovery net m) (apps_endpoint cfg) g'))"
    and "\<forall>m<k. \<forall>g'. \<not> isl (fst (get_token cfg (login net m) g'))"
    and "\<forall>g'. \<exists>c. fst (api_call cfg (discovery net k) (apps_endpoint cfg) g')
                        = Inl (RequestException (Some c)) \<and> (c = 403 \<or> c = 401)"
    and "\<forall>g'. fst (get_token cfg (login net k) g') = Inl e"
  shows "fst (crawl cfg net g) = Inl e
       \<and> stack_cache (generate_stack_metrics cfg net g) = stack_cache g
       \<and> (\<exists>es. effects (generate_stack_metrics cfg net g)
                 = effects g @ es @ [Sent (token_request cfg (CF_UAA_URL g)),
                                     Sleep (SCRAPE_INTERVAL cfg)]
              \<and> length [x \<leftarrow> es. x = Sleep 5] = k
              \<and> length [x \<leftarrow> es. \<exists>r. x = Sent r \<and> meth r = GET] = k + 1)"
proof -
  from page_discovery_denied [OF assms(1) _ assms(2-5), of 0 g]
  obtain es where pd: "fst (page_discovery cfg net 0 g) = Inl e"
    and es: "effects (snd (page_discovery cfg net 0 g))
                 = effects g @ es @ [Sent (token_request cfg (CF_UAA_URL g))]"
      "length [x \<leftarrow> es. x = Sleep 5] = k"
      "length [x \<leftarrow> es. \<exists>r. x = Sent r \<and> meth r = GET] = k + 1"
    by auto
  have c: "crawl cfg net g = (Inl e, snd (page_discovery cfg net 0 g))"
    using pd by (rule crawl_aborted)
  then have "effects (generate_stack_metrics cfg net g)
      = effects g @ es @ [Sent (token_request cfg (CF_UAA_URL g)), Sleep (SCRAPE_INTERVAL cfg)]"
    using es(1) by (simp add: generate_stack_metrics_def sleep_def)
  moreover have "stack_cache (generate_stack_metrics cfg net g) = stack_cache g"
    using c by (simp add: generate_stack_metrics_cache)
  ultimately show ?thesis using c es(2,3) by auto
qed

lemma expiring_discovery:
  "fst (api_call cfg (discovery expiring n) u g) = Inl (RequestException (Some 401))"
  by (simp add: api_call_def expiring_def requests_send_def raise_for_status_def Let_def)

lemma expiring_login:
  "fst (get_token cfg (login expiring n) g)
     = (if n < 2 then Inr () else Inl (RequestException (Some 401)))"
  by (simp add: get_token_def expiring_def requests_send_def raise_for_status_def json_def Let_def)

theorem failed_relogin_aborts_cycle_witness:
  "fst (crawl example_config expiring (publish [(''cflinuxfs4'', 3)] example_process))
     = Inl (RequestException (Some 401))
   \<and> stack_cache (generate_stack_metrics example_config expiring
                    (publish [(''cflinuxfs4'', 3)] example_process))
        = [(''cflinuxfs4'', 3)]
   \<and> (\<exists>es. effects (generate_stack_metrics example_config expiring
                    (publish [(''cflinuxfs4'', 3)] example_process))
              = es @ [Sent (token_request example_config ''https://uaa.example.com''), Sleep 300]
          \<and> length [x \<leftarrow> es. x = Sleep 5] = 2
          \<and> length [x \<leftarrow> es. \<exists>r. x = Sent r \<and> meth r = GET] = 3)"
proof -
  have h1: "(2::nat) < 5" by simp
  have h2: "\<forall>m<2. \<forall>g'. isl (fst (api_call example_config (discovery expiring m)
                                  (apps_endpoint example_config) g'))"
    by (simp add: expiring_discovery)
  have h3: "\<forall>m<2. \<forall>g'. \<not> isl (fst (get_token example_config (login expiring m) g'))"
    by (simp add: expiring_login)
  have h4: "\<forall>g'. \<exists>c. fst (api_call example_config (discovery expiring 2)
                              (apps_endpoint example_config) g')
                        = Inl (RequestException (Some c)) \<and> (c = 403 \<or> c = 401)"
    by (simp add: expiring_discovery)
  have h5: "\<forall>g'. fst (get_token example_config (login expiring 2) g')
                 = Inl (RequestException (Some 401))"
    by (simp add: expiring_login)
  from failed_relogin_aborts_cycle [OF h1 h2 h3 h4 h5,
         of "publish [(''cflinuxfs4'', 3)] example_process"]
  show ?thesis
    by (simp add: publish_def example_process_def started_def example_config_def)
qed

section \<open>What the aggregation computes\<close>

lemma dict_get_update:
  "dict_get (AList.update s v d) k dflt = (if k = s then v else dict_get d k dflt)"
  by (simp add: dict_get_def update_conv')

lemma count_app_counted:
  assumes "app_stack a = Some s" "s \<noteq> []" "INCLUDE_INVALID_STACKS cfg \<or> s \<in> set valid"
  shows "count_app cfg valid d a = AList.update s (dict_get d s 0 + 1) d"
  using assms by (simp add: count_app_def dict_set_def)

lemma count_app_skipped:
  assumes "\<forall>s. app_stack a = Some s \<longrightarrow> s = [] \<or> \<not> (INCLUDE_INVALID_STACKS cfg \<or> s \<in> set valid)"
  shows "count_app cfg valid d a = d"
  using assms by (auto simp: count_app_def split: option.splits)

text \<open>What the inner loop leaves under a key: the previous count plus the number of records
  with that stack, if the stack is counted at all.\<close>

lemma map_of_count_apps:
  "map_of (foldl (count_app cfg valid) d apps) k =
     (if k \<noteq> [] \<and> (INCLUDE_INVALID_STACKS cfg \<or> k \<in> set valid)
         \<and> Some k \<in> set (map app_stack apps)
      then Some (dict_get d k 0 + int (count_list (map app_stack apps) (Some k)))
      else map_of d k)"
proof (induction apps arbitrary: d)
  case Nil
  show ?case by simp
next
  case (Cons a apps)
  let ?d = "count_app cfg valid d a"
  show ?case
  proof (cases "\<exists>s. app_stack a = Some s \<and> s \<noteq> [] \<and> (INCLUDE_INVALID_STACKS cfg \<or> s \<in> set valid)")
    case True
    then obtain s where s: "app_stack a = Some s" "s \<noteq> []"
        "INCLUDE_INVALID_STACKS cfg \<or> s \<in> set valid"
      by blast
    have d: "?d = AList.update s (dict_get d s 0 + 1) d"
      using s by (rule count_app_counted)
    show ?thesis
    proof (cases "k = s")
      case True
      have "map_of ?d k = Some (dict_get d k 0 + 1)" "dict_get ?d k 0 = dict_get d k 0 + 1"
        by (simp_all add: d True update_conv' dict_get_update)
      then show ?thesis
        using Cons.IH [of ?d] s True by (auto simp: count_list_0_iff)
    next
      case False
      have "map_of ?d k = map_of d k" "dict_get ?d k 0 = dict_get d k 0"
        using False by (simp_all add: d update_conv' dict_get_update)
      then show ?thesis
        using Cons.IH [of ?d] s False by auto
    qed
  next
    case False
    then have d: "?d = d"
      by (intro count_app_skipped) blast
    have "app_stack a \<noteq> Some k"
      if "k \<noteq> []" "INCLUDE_INVALID_STACKS cfg \<or> k \<in> set valid"
      using False that by blast
    then show ?thesis
      using Cons.IH [of d] by (auto simp: d)
  qed
qed

lemma foldl_pages:
  "foldl (count_page cfg valid) d responses
     = foldl (count_app cfg valid) d (concat (map page_apps responses))"
  by (induction responses arbitrary: d) (simp_all add: count_page_def)

lemma map_of_aggregate:
  "map_of (aggregate cfg valid responses) k =
     (if k \<noteq> [] \<and> (INCLUDE_INVALID_STACKS cfg \<or> k \<in> set valid)
         \<and> Some k \<in> set (map app_stack (concat (map page_apps responses)))
      then Some (int (count_list (map app_stack (concat (map page_apps responses))) (Some k)))
      else None)"
  by (simp add: aggregate_def foldl_pages map_of_count_apps dict_get_def)

lemma distinct_count_apps:
  "distinct (map fst d) \<Longrightarrow> distinct (map fst (foldl (count_app cfg valid) d apps))"
proof (induction apps arbitrary: d)
  case Nil
  then show ?case by simp
next
  case (Cons a apps)
  have "distinct (map fst (count_app cfg valid d a))"
    using Cons.prems
    by (auto simp: count_app_def dict_set_def distinct_update split: option.splits)
  then show ?case using Cons.IH by simp
qed

lemma distinct_aggregate: "distinct (map fst (aggregate cfg valid responses))"
  by (simp add: aggregate_def foldl_pages distinct_count_apps)

lemma aggregate_entry:
  assumes "(k, v) \<in> set (aggregate cfg valid responses)"
  shows "k \<noteq> [] \<and> (INCLUDE_INVALID_STACKS cfg \<or> k \<in> set valid) \<and> 1 \<le> v"
proof -
  have m: "map_of (aggregate cfg valid responses) k = Some v"
    using assms distinct_aggregate by (rule map_of_is_SomeI [rotated])
  let ?xs = "map app_stack (concat (map page_apps responses))"
  have c: "k \<noteq> [] \<and> (INCLUDE_INVALID_STACKS cfg \<or> k \<in> set valid) \<and> Some k \<in> set ?xs"
    using m by (simp add: map_of_aggregate split: if_splits)
  then have "v = int (count_list ?xs (Some k))"
    using m by (simp add: map_of_aggregate)
  moreover have "0 < count_list ?xs (Some k)"
  proof -
    have "count_list ?xs (Some k) = 0 \<Longrightarrow> Some k \<notin> set ?xs"
      by (rule iffD1 [OF count_list_0_iff])
    with c have "count_list ?xs (Some k) \<noteq> 0" by blast
    then show ?thesis by (simp only: neq0_conv)
  qed
  ultimately show ?thesis using c by simp
qed

text \<open>
  Claim C7: the aggregation does not depend on the order of the pages nor on the order of
  the records within a page. Two lists of pages that are the same multiset of pages, each
  page taken as the multiset of its records, give the same mapping from stack to count.
\<close>

theorem aggregate_order_independent:
  assumes "mset (map (\<lambda>p. mset (page_apps p)) responses')
         = mset (map (\<lambda>p. mset (page_apps p)) responses)"
  shows "map_of (aggregate cfg valid responses') = map_of (aggregate cfg valid responses)"
proof
  fix k
  have all: "mset (concat (map page_apps rs))
      = sum_mset (mset (map (\<lambda>p. mset (page_apps p)) rs))" for rs :: "apps_page list"
    by (induction rs) simp_all
  have "mset (concat (map page_apps responses')) = mset (concat (map page_apps responses))"
    by (simp only: all assms)
  then have "mset (map app_stack (concat (map page_apps responses')))
      = mset (map app_stack (concat (map page_apps responses)))"
    by (metis mset_map)
  then have "set (map app_stack (concat (map page_apps responses')))
      = set (map app_stack (concat (map page_apps responses)))"
    and "count_list (map app_stack (concat (map page_apps responses'))) (Some k)
      = count_list (map app_stack (concat (map page_apps responses))) (Some k)"
    by (metis set_mset_mset, metis count_mset)
  then show "map_of (aggregate cfg valid responses') k = map_of (aggregate cfg valid responses) k"
    by (simp only: map_of_aggregate)
qed

theorem aggregate_order_independent_witness:
  "map_of (aggregate example_config [''cflinuxfs4'', ''windows2016'']
            [page_of [''windows2016'', ''cflinuxfs4''],
             page_of [''bogus-stack'', ''cflinuxfs4'', ''cflinuxfs4'']])
     = map_of (aggregate example_config [''cflinuxfs4'', ''windows2016'']
            [page_of [''cflinuxfs4'', ''cflinuxfs4'', ''bogus-stack''],
             page_of [''cflinuxfs4'', ''windows2016'']])
   \<and> aggregate example_config [''cflinuxfs4'', ''windows2016'']
            [page_of [''windows2016'', ''cflinuxfs4''],
             page_of [''bogus-stack'', ''cflinuxfs4'', ''cflinuxfs4'']]
        = [(''windows2016'', 1), (''cflinuxfs4'', 3)]"
proof -
  have h: "mset (map (\<lambda>p. mset (page_apps p))
              [page_of [''windows2016'', ''cflinuxfs4''],
               page_of [''bogus-stack'', ''cflinuxfs4'', ''cflinuxfs4'']])
         = mset (map (\<lambda>p. mset (page_apps p))
              [page_of [''cflinuxfs4'', ''cflinuxfs4'', ''bogus-stack''],
               page_of [''cflinuxfs4'', ''windows2016'']])"
    by (simp add: page_apps_page_of add_mset_commute)
  have v: "aggregate example_config [''cflinuxfs4'', ''windows2016'']
            [page_of [''windows2016'', ''cflinuxfs4''],
             page_of [''bogus-stack'', ''cflinuxfs4'', ''cflinuxfs4'']]
        = [(''windows2016'', 1), (''cflinuxfs4'', 3)]"
    by (simp add: aggregate_def count_page_def page_apps_page_of count_app_def app_stack_app_on
          example_config_def dict_get_def dict_set_def)
  from aggregate_order_independent [OF h, of example_config "[''cflinuxfs4'', ''windows2016'']"] v
  show ?thesis by blast
qed

section \<open>Setting the gauges\<close>

lemma set_gauges_Nil: "set_gauges [] r = r"
  by (simp add: set_gauges_def)

lemma set_gauges_Cons: "set_gauges ((k, v) # c) r = set_gauges c (AList.update k v r)"
  by (simp add: set_gauges_def dict_set_def)

lemma set_gauges_snoc: "set_gauges (c @ [(k, v)]) r = AList.update k v (set_gauges c r)"
  by (simp add: set_gauges_def dict_set_def)

lemma set_gauges_keys: "fst ` set (set_gauges c r) = fst ` set r \<union> fst ` set c"
proof (induction c arbitrary: r)
  case Nil
  show ?case by (simp add: set_gauges_Nil)
next
  case (Cons p c)
  obtain k v where p: "p = (k, v)" by (cases p)
  show ?case by (auto simp: p set_gauges_Cons Cons.IH dom_update)
qed

lemma map_of_set_gauges:
  "l \<notin> fst ` set c \<Longrightarrow> map_of (set_gauges c r) l = map_of r l"
proof (induction c arbitrary: r)
  case Nil
  show ?case by (simp add: set_gauges_Nil)
next
  case (Cons p c)
  obtain k v where p: "p = (k, v)" by (cases p)
  from Cons.prems have "l \<noteq> k" "l \<notin> fst ` set c" by (auto simp: p)
  then show ?case by (simp add: p set_gauges_Cons Cons.IH update_conv')
qed

lemma update_absent: "k \<notin> fst ` set r \<Longrightarrow> AList.update k v r = r @ [(k, v)]"
  by (induction r) auto

lemma update_append_present:
  "k \<in> fst ` set s \<Longrightarrow> AList.update k v (s @ t) = AList.update k v s @ t"
  by (induction s) auto

lemma update_commute_present:
  "k \<in> fst ` set r \<Longrightarrow> k \<noteq> k' \<Longrightarrow>
   AList.update k v (AList.update k' v' r) = AList.update k' v' (AList.update k v r)"
  by (induction r) auto

lemma set_gauges_update_present:
  "k \<in> fst ` set r \<Longrightarrow>
   set_gauges c (AList.update k v r)
     = (if k \<in> fst ` set c then set_gauges c r else AList.update k v (set_gauges c r))"
proof (induction c arbitrary: r)
  case Nil
  show ?case by (simp add: set_gauges_Nil)
next
  case (Cons p c)
  obtain k' v' where p: "p = (k', v')" by (cases p)
  show ?case
  proof (cases "k' = k")
    case True
    then show ?thesis by (simp add: p set_gauges_Cons)
  next
    case False
    have "k \<in> fst ` set (AList.update k' v' r)"
      using Cons.prems by (simp add: dom_update)
    from Cons.IH [OF this] False Cons.prems show ?thesis
      by (simp add: p set_gauges_Cons update_commute_present [of k r k'])
  qed
qed

lemma set_gauges_append_present:
  "fst ` set c \<subseteq> fst ` set s \<Longrightarrow> set_gauges c (s @ t) = set_gauges c s @ t"
proof (induction c arbitrary: s)
  case Nil
  show ?case by (simp add: set_gauges_Nil)
next
  case (Cons p c)
  obtain k v where p: "p = (k, v)" by (cases p)
  from Cons.prems have k: "k \<in> fst ` set s" and c: "fst ` set c \<subseteq> fst ` set s"
    by (auto simp: p)
  have "fst ` set c \<subseteq> fst ` set (AList.update k v s)"
    using c by (auto simp: dom_update)
  from Cons.IH [OF this] show ?case
    by (simp add: p set_gauges_Cons update_append_present [OF k])
qed

lemma set_gauges_idem: "set_gauges c (set_gauges c r) = set_gauges c r"
proof (induction c rule: rev_induct)
  case Nil
  show ?case by (simp add: set_gauges_Nil)
next
  case (snoc p c)
  obtain k v where p: "p = (k, v)" by (cases p)
  let ?s = "set_gauges c r"
  let ?t = "AList.update k v ?s"
  have goal: "AList.update k v (set_gauges c ?t) = ?t"
  proof (cases "k \<in> fst ` set ?s")
    case True
    then have "set_gauges c ?t = (if k \<in> fst ` set c then ?s else ?t)"
      by (simp add: set_gauges_update_present snoc.IH)
    then show ?thesis by simp
  next
    case False
    then have t: "?t = ?s @ [(k, v)]" by (rule update_absent)
    have "fst ` set c \<subseteq> fst ` set ?s" by (simp add: set_gauges_keys)
    then have "set_gauges c (?s @ [(k, v)]) = ?s @ [(k, v)]"
      by (simp add: set_gauges_append_present snoc.IH)
    then have "set_gauges c ?t = ?t" by (simp only: t)
    then show ?thesis by simp
  qed
  show ?case by (simp only: p set_gauges_snoc goal)
qed

section \<open>The endpoint\<close>

lemma metrics_response:
  "fst (metrics generate_latest g)
     = \<lparr>status = 200, mimetype = ''text/plain'',
        body = generate_latest (set_gauges (stack_cache g) (stack_gauge g))\<rparr>"
  by (simp add: metrics_def Let_def)

lemma metrics_state:
  "snd (metrics generate_latest g)
     = g\<lparr>stack_gauge := set_gauges (stack_cache g) (stack_gauge g)\<rparr>"
  by (simp add: metrics_def Let_def)

text \<open>
  Claim C8: publishing an aggregate and rendering, then publishing the same aggregate
  again and rendering, gives the same response both times, for every aggregate, every
  state of the gauge and every encoder.
\<close>

theorem republishing_renders_the_same:
  "fst (metrics generate_latest (publish A (snd (metrics generate_latest (publish A g)))))
     = fst (metrics generate_latest (publish A g))"
  by (simp add: metrics_response metrics_state publish_def set_gauges_idem)

text \<open>
  Claim C9: a render writes only the gauges whose labels are keys of the cache. For a label
  that is not a key of the cache, the gauge holds after the render what it held before
  (a value that was set earlier stays, a label that was never set stays absent), and the
  response is the encoding of exactly that gauge.
\<close>

theorem absent_labels_keep_their_value:
  assumes "l \<notin> fst ` set (stack_cache g)"
  shows "map_of (stack_gauge (snd (metrics generate_latest g))) l = map_of (stack_gauge g) l
       \<and> body (fst (metrics generate_latest g))
           = generate_latest (stack_gauge (snd (metrics generate_latest g)))"
  using assms by (simp add: metrics_response metrics_state map_of_set_gauges)

theorem absent_labels_keep_their_value_witness:
  "map_of (stack_gauge (snd (metrics (\<lambda>children. children) stale_process))) ''windows2016''
     = Some 1
   \<and> body (fst (metrics (\<lambda>children. children) stale_process))
     = [(''windows2016'', 1), (''cflinuxfs4'', 3)]"
proof -
  have h: "''windows2016'' \<notin> fst ` set (stack_cache stale_process)"
    by (simp add: stale_process_def publish_def)
  have g: "stack_gauge stale_process = [(''windows2016'', 1), (''cflinuxfs4'', 2)]"
    by (simp add: stale_process_def)
  have b: "body (fst (metrics (\<lambda>children. children) stale_process))
     = [(''windows2016'', 1), (''cflinuxfs4'', 3)]"
    by (simp add: metrics_response stale_process_def publish_def set_gauges_def dict_set_def)
  from absent_labels_keep_their_value [OF h, of "\<lambda>children. children"] g b
  show ?thesis by simp
qed

section \<open>Runs of the process\<close>

lemma crawl_result:
  assumes "fst (crawl cfg net g) = Inr stack_counts"
  shows "\<exists>responses. stack_counts = aggregate cfg (valid_stacks g) responses"
proof -
  obtain r g1 where a: "page_discovery cfg net 0 g = (r, g1)"
    by (cases "page_discovery cfg net 0 g")
  have g1: "valid_stacks g1 = valid_stacks g"
    using page_discovery_shared [of cfg net 0 g] a by simp
  from assms a obtain us responses g2 where
    f: "fetch_all cfg (pages net) us g1 = (Inr responses, g2)"
    and sc: "stack_counts = aggregate cfg (valid_stacks g2) responses"
    by (auto simp: crawl_def split: sum.splits option.splits prod.splits)
  have "valid_stacks g2 = valid_stacks g1"
    using fetch_all_shared [of cfg "pages net" us g1] f by simp
  with sc g1 show ?thesis by auto
qed

lemma step_cache:
  "stack_cache (step cfg generate_latest g ev) = stack_cache g
   \<or> (\<exists>responses. stack_cache (step cfg generate_latest g ev)
                     = aggregate cfg (valid_stacks g) responses)"
proof (cases ev)
  case (Cycle net)
  show ?thesis
  proof (cases "fst (crawl cfg net g)")
    case (Inl err)
    then show ?thesis by (simp add: Cycle generate_stack_metrics_cache)
  next
    case (Inr stack_counts)
    with crawl_result [OF Inr] show ?thesis
      by (auto simp: Cycle generate_stack_metrics_cache)
  qed
next
  case Scrape
  then show ?thesis by (simp add: metrics_state)
qed

lemma step_valid_stacks: "valid_stacks (step cfg generate_latest g ev) = valid_stacks g"
  by (cases ev) (simp_all add: metrics_state generate_stack_metrics_shared)

lemma step_gauge_keys:
  "fst ` set (stack_gauge (step cfg generate_latest g ev))
     \<subseteq> fst ` set (stack_gauge g) \<union> fst ` set (stack_cache g)"
  by (cases ev) (simp_all add: metrics_state generate_stack_metrics_shared set_gauges_keys)

lemma run_Nil: "run cfg generate_latest [] g = g"
  by (simp add: run_def)

lemma run_snoc:
  "run cfg generate_latest (events @ [ev]) g
     = step cfg generate_latest (run cfg generate_latest events g) ev"
  by (simp add: run_def)


lemma run_valid_stacks: "valid_stacks (run cfg generate_latest events g) = valid_stacks g"
  by (induction events rule: rev_induct) (simp_all add: run_Nil run_snoc step_valid_stacks)

lemma well_formed_aggregate: "well_formed (aggregate cfg valid responses)"
  unfolding well_formed_def list_all_iff
proof
  fix x assume x: "x \<in> set (aggregate cfg valid responses)"
  obtain k v where kv: "x = (k, v)" by (cases x)
  from aggregate_entry [of k v cfg valid responses] x
  show "case x of (k, v) \<Rightarrow> k \<noteq> [] \<and> 0 \<le> v" by (simp add: kv)
qed

lemma run_well_formed:
  "well_formed (stack_cache g) \<Longrightarrow> well_formed (stack_cache (run cfg generate_latest events g))"
proof (induction events rule: rev_induct)
  case Nil
  then show ?case by (simp add: run_Nil)
next
  case (snoc ev events)
  from step_cache [of cfg generate_latest "run cfg generate_latest events g" ev]
  show ?case using snoc by (auto simp: run_snoc well_formed_aggregate)
qed

text \<open>
  Claim C5: every aggregate that is ever in the cache is well-formed. The empty cache at
  the start is, every aggregate that a cycle builds is (so every publication stores a
  well-formed one), and so is the cache after any run of cycles and scrapes.
\<close>

theorem snapshots_well_formed:
  "well_formed (stack_cache (started uaa token valid))
   \<and> well_formed (aggregate cfg valid responses)
   \<and> well_formed (stack_cache (run cfg generate_latest events (started uaa token valid)))"
proof -
  have "well_formed (stack_cache (started uaa token valid))"
    by (simp add: started_def well_formed_def)
  then show ?thesis by (simp add: well_formed_aggregate run_well_formed)
qed

lemma keys_aggregate:
  assumes "\<not> INCLUDE_INVALID_STACKS cfg"
  shows "fst ` set (aggregate cfg valid responses) \<subseteq> set valid"
proof
  fix k assume "k \<in> fst ` set (aggregate cfg valid responses)"
  then obtain v where "(k, v) \<in> set (aggregate cfg valid responses)" by auto
  from aggregate_entry [OF this] assms show "k \<in> set valid" by simp
qed

lemma run_valid_keys:
  assumes "\<not> INCLUDE_INVALID_STACKS cfg"
    and "fst ` set (stack_cache g) \<subseteq> set (valid_stacks g)"
    and "fst ` set (stack_gauge g) \<subseteq> set (valid_stacks g)"
  shows "fst ` set (stack_cache (run cfg generate_latest events g)) \<subseteq> set (valid_stacks g)
       \<and> fst ` set (stack_gauge (run cfg generate_latest events g)) \<subseteq> set (valid_stacks g)"
proof (induction events rule: rev_induct)
  case Nil
  from assms(2,3) show ?case by (simp add: run_Nil)
next
  case (snoc ev events)
  let ?g = "run cfg generate_latest events g"
  from snoc.IH have ihc: "fst ` set (stack_cache ?g) \<subseteq> set (valid_stacks g)"
    and ihg: "fst ` set (stack_gauge ?g) \<subseteq> set (valid_stacks g)"
    by blast+
  have v: "valid_stacks ?g = valid_stacks g" by (rule run_valid_stacks)
  have c: "fst ` set (stack_cache (step cfg generate_latest ?g ev)) \<subseteq> set (valid_stacks g)"
    using step_cache [of cfg generate_latest ?g ev]
  proof
    assume "stack_cache (step cfg generate_latest ?g ev) = stack_cache ?g"
    then show ?thesis by (simp only: ihc)
  next
    assume "\<exists>responses. stack_cache (step cfg generate_latest ?g ev)
                     = aggregate cfg (valid_stacks ?g) responses"
    then obtain responses where
      "stack_cache (step cfg generate_latest ?g ev) = aggregate cfg (valid_stacks ?g) responses"
      ..
    then show ?thesis
      by (simp only: v keys_aggregate [OF assms(1)])
  qed
  have "fst ` set (stack_gauge ?g) \<union> fst ` set (stack_cache ?g) \<subseteq> set (valid_stacks g)"
    using ihc ihg by (rule_tac Un_least)
  with step_gauge_keys [of cfg generate_latest ?g ev]
  have "fst ` set (stack_gauge (step cfg generate_latest ?g ev)) \<subseteq> set (valid_stacks g)"
    by (rule subset_trans)
  with c show ?case by (simp only: run_snoc simp_thms)
qed

text \<open>
  Claim C6: with filtering of invalid stacks enabled, after any run from the start every
  key of the cache is one of the valid stacks loaded at start-up, and so is every label of
  the gauge that a scrape renders.
\<close>

theorem rendered_labels_are_valid:
  assumes "\<not> INCLUDE_INVALID_STACKS cfg"
  shows "fst ` set (stack_cache (run cfg generate_latest events (started uaa token valid)))
           \<subseteq> set valid
       \<and> fst ` set (stack_gauge (snd (metrics generate_latest
                      (run cfg generate_latest events (started uaa token valid)))))
           \<subseteq> set valid
       \<and> body (fst (metrics generate_latest
                      (run cfg generate_latest events (started uaa token valid))))
           = generate_latest (stack_gauge (snd (metrics generate_latest
                      (run cfg generate_latest events (started uaa token valid)))))"
proof -
  let ?g = "started uaa token valid"
  let ?h = "run cfg generate_latest events ?g"
  have v: "valid_stacks ?g = valid" by (simp add: started_def)
  have "fst ` set (stack_cache ?g) \<subseteq> set (valid_stacks ?g)"
       "fst ` set (stack_gauge ?g) \<subseteq> set (valid_stacks ?g)"
    by (simp_all add: started_def)
  from run_valid_keys [OF assms this, of generate_latest events]
  have c: "fst ` set (stack_cache ?h) \<subseteq> set valid"
    and r: "fst ` set (stack_gauge ?h) \<subseteq> set valid"
    unfolding v by blast+
  have "stack_gauge (snd (metrics generate_latest ?h))
          = set_gauges (stack_cache ?h) (stack_gauge ?h)"
    by (simp add: metrics_state)
  then have "fst ` set (stack_gauge (snd (metrics generate_latest ?h)))
          = fst ` set (stack_gauge ?h) \<union> fst ` set (stack_cache ?h)"
    by (simp only: set_gauges_keys)
  with c r have "fst ` set (stack_gauge (snd (metrics generate_latest ?h))) \<subseteq> set valid"
    by (simp only: Un_subset_iff simp_thms)
  moreover have "body (fst (metrics generate_latest ?h))
      = generate_latest (stack_gauge (snd (metrics generate_latest ?h)))"
    by (simp add: metrics_state metrics_response)
  ultimately show ?thesis using c by (intro conjI)
qed

text \<open>The two-page scenario, run as a cycle.\<close>

lemma page_discovery_found:
  assumes "retries < 5"
    and "fst (api_call cfg (discovery net retries) (apps_endpoint cfg) g) = Inr page"
  shows "page_discovery cfg net retries g
           = (Inr page, snd (api_call cfg (discovery net retries) (apps_endpoint cfg) g))"
  using assms(1)
proof (cases rule: page_discovery_cases [of _ cfg net g])
  case (found page')
  with assms(2) show ?thesis by simp
qed (simp_all add: assms(2))

lemma crawl_fetched:
  assumes "page_discovery cfg net 0 g = (Inr page, g1)"
    and "pagination page = Some p"
    and "total_pages p = Some n"
    and "fetch_all cfg (pages net) (map (page_url cfg) [1..n]) g1 = (Inr responses, g2)"
  shows "crawl cfg net g = (Inr (aggregate cfg (valid_stacks g2) responses), g2)"
  by (simp add: crawl_def assms)

lemma scenario_urls:
  "map (page_url example_config) [1..2]
     = [''https://api.example.com/v3/apps?page=1&per_page=50'',
        ''https://api.example.com/v3/apps?page=2&per_page=50'']"
  by code_simp

lemma scenario_discovery:
  "fst (api_call example_config (discovery scenario 0) (apps_endpoint example_config) g)
     = Inr (page_of [])"
  by (simp add: api_call_def scenario_def requests_send_def raise_for_status_def json_def Let_def)

lemma scenario_fetch:
  "fst (fetch_all example_config (pages scenario)
          [''https://api.example.com/v3/apps?page=1&per_page=50'',
           ''https://api.example.com/v3/apps?page=2&per_page=50''] g)
     = Inr [page_of [''cflinuxfs4'', ''cflinuxfs4'', ''bogus-stack''],
            page_of [''windows2016'', ''cflinuxfs4'']]"
  by (simp add: api_call_def api_request_def scenario_def requests_send_def raise_for_status_def json_def Let_def
        split: prod.splits)

lemma scenario_crawl:
  "fst (crawl example_config scenario example_process)
     = Inr [(''cflinuxfs4'', 3), (''windows2016'', 1)]"
proof -
  let ?g1 = "snd (api_call example_config (discovery scenario 0) (apps_endpoint example_config)
                example_process)"
  have pd: "page_discovery example_config scenario 0 example_process = (Inr (page_of []), ?g1)"
    by (rule page_discovery_found) (simp_all add: scenario_discovery)
  obtain rs g2 where f: "fetch_all example_config (pages scenario)
          [''https://api.example.com/v3/apps?page=1&per_page=50'',
           ''https://api.example.com/v3/apps?page=2&per_page=50''] ?g1 = (rs, g2)"
    by (cases "fetch_all example_config (pages scenario)
          [''https://api.example.com/v3/apps?page=1&per_page=50'',
           ''https://api.example.com/v3/apps?page=2&per_page=50''] ?g1")
  have rs: "rs = Inr [page_of [''cflinuxfs4'', ''cflinuxfs4'', ''bogus-stack''],
            page_of [''windows2016'', ''cflinuxfs4'']]"
    using scenario_fetch [of ?g1] f by simp
  have "g2 = snd (fetch_all example_config (pages scenario)
          [''https://api.example.com/v3/apps?page=1&per_page=50'',
           ''https://api.example.com/v3/apps?page=2&per_page=50''] ?g1)"
    by (simp only: f snd_conv)
  then have "valid_stacks g2 = valid_stacks example_process"
    by (simp only: fetch_all_shared api_call_shared)
  then have v: "valid_stacks g2 = [''cflinuxfs4'', ''windows2016'']"
    by (simp add: example_process_def started_def)
  have "aggregate example_config [''cflinuxfs4'', ''windows2016'']
          [page_of [''cflinuxfs4'', ''cflinuxfs4'', ''bogus-stack''],
           page_of [''windows2016'', ''cflinuxfs4'']]
        = [(''cflinuxfs4'', 3), (''windows2016'', 1)]"
    by (simp add: aggregate_def count_page_def page_apps_page_of count_app_def app_stack_app_on
          example_config_def dict_get_def dict_set_def)
  moreover have "crawl example_config scenario example_process
      = (Inr (aggregate example_config (valid_stacks g2)
               [page_of [''cflinuxfs4'', ''cflinuxfs4'', ''bogus-stack''],
                page_of [''windows2016'', ''cflinuxfs4'']]), g2)"
  proof (rule crawl_fetched [OF pd])
    show "pagination (page_of []) = Some \<lparr>total_pages = Some 2\<rparr>"
      by (simp add: page_of_def)
    show "total_pages \<lparr>total_pages = Some 2\<rparr> = Some 2"
      by simp
    show "fetch_all example_config (pages scenario) (map (page_url example_config) [1..2]) ?g1
        = (Inr [page_of [''cflinuxfs4'', ''cflinuxfs4'', ''bogus-stack''],
                page_of [''windows2016'', ''cflinuxfs4'']], g2)"
      by (simp only: scenario_urls f rs)
  qed
  ultimately show ?thesis by (simp only: v fst_conv)
qed

lemma scenario_cycle:
  "stack_cache (generate_stack_metrics example_config scenario example_process)
     = [(''cflinuxfs4'', 3), (''windows2016'', 1)]"
  by (simp add: generate_stack_metrics_cache scenario_crawl)

theorem rendered_labels_are_valid_witness:
  "fst ` set (stack_cache (run example_config (\<lambda>children. children)
                             [Cycle scenario, Scrape] example_process))
     \<subseteq> set [''cflinuxfs4'', ''windows2016'']
   \<and> fst ` set (stack_gauge (snd (metrics (\<lambda>children. children)
                  (run example_config (\<lambda>children. children)
                     [Cycle scenario, Scrape] example_process))))
     \<subseteq> set [''cflinuxfs4'', ''windows2016'']
   \<and> stack_cache (run example_config (\<lambda>children. children)
                     [Cycle scenario, Scrape] example_process)
     = [(''cflinuxfs4'', 3), (''windows2016'', 1)]"
proof -
  have h: "\<not> INCLUDE_INVALID_STACKS example_config"
    by (simp add: example_config_def)
  have c: "stack_cache (run example_config (\<lambda>children. children)
                     [Cycle scenario, Scrape] example_process)
     = [(''cflinuxfs4'', 3), (''windows2016'', 1)]"
    by (simp add: run_def metrics_state scenario_cycle)
  from rendered_labels_are_valid [OF h, of "\<lambda>children. children" "[Cycle scenario, Scrape]"
         "''https://uaa.example.com''" "''token''" "[''cflinuxfs4'', ''windows2016'']"] c
  show ?thesis by (simp only: example_process_def simp_thms)
qed














end
